theory Spec2Isabelle
  imports Main "HOL-Library.Sublist" "HOL-Library.Multiset"
begin

section \<open>Text\<close>

text \<open>
  A Python \<open>str\<close> is a sequence of Unicode code points. It is modelled as a list of natural
  numbers, one per code point; \<open>str\<close> turns an ASCII literal into such a list. Paths are
  Python strings as well.
\<close>

type_synonym ustr = "nat list"

definition str :: "string \<Rightarrow> ustr" where
  "str s = map of_char s"

definition dquote :: nat where
  "dquote = 34"

text \<open>
  The characters the regular-expression class \<open>\s\<close> accepts in a \<open>str\<close> pattern: the code
  points for which \<open>str.isspace\<close> holds (tab to carriage return, the four separators
  0x1C to 0x1F, space, NEL, no-break space, and the Unicode space separators).
\<close>

definition is_space :: "nat \<Rightarrow> bool" where
  "is_space c \<longleftrightarrow>
     (9 \<le> c \<and> c \<le> 13) \<or> (28 \<le> c \<and> c \<le> 32) \<or> c = 133 \<or> c = 160 \<or> c = 5760 \<or>
     (8192 \<le> c \<and> c \<le> 8202) \<or> c = 8232 \<or> c = 8233 \<or> c = 8239 \<or> c = 8287 \<or> c = 12288"

fun strip_prefix :: "'a list \<Rightarrow> 'a list \<Rightarrow> 'a list option" where
  "strip_prefix [] s = Some s"
| "strip_prefix (p # ps) [] = None"
| "strip_prefix (p # ps) (c # cs) = (if p = c then strip_prefix ps cs else None)"

section \<open>Regular expressions of the script\<close>

text \<open>
  The seven patterns of the script use literal characters, \<open>\s*\<close> and the one group
  \<open>([^"]+)\<close>. \<open>re_match\<close> is the backtracking matcher of Python's \<open>re\<close> on this fragment,
  anchored at the start of its argument: a greedy repetition first takes one more
  character and falls back to the rest of the pattern when that fails. It returns the
  text of group 1 (empty when the pattern has no group) and the unmatched remainder.
\<close>

datatype cls = Chr nat | Space | NotDquote

fun accepts :: "cls \<Rightarrow> nat \<Rightarrow> bool" where
  "accepts (Chr x) c = (c = x)"
| "accepts Space c = is_space c"
| "accepts NotDquote c = (c \<noteq> dquote)"

datatype item = One cls | Star cls | GroupPlus cls | GroupStar cls

fun re_match :: "item list \<Rightarrow> ustr \<Rightarrow> (ustr \<times> ustr) option" where
  "re_match [] s = Some ([], s)"
| "re_match (One a # is) [] = None"
| "re_match (One a # is) (c # cs) = (if accepts a c then re_match is cs else None)"
| "re_match (Star a # is) [] = re_match is []"
| "re_match (Star a # is) (c # cs) =
     (if accepts a c
      then (case re_match (Star a # is) cs of
              Some r \<Rightarrow> Some r
            | None \<Rightarrow> re_match is (c # cs))
      else re_match is (c # cs))"
| "re_match (GroupPlus a # is) [] = None"
| "re_match (GroupPlus a # is) (c # cs) =
     (if accepts a c
      then (case re_match (GroupStar a # is) cs of
              Some (g, r) \<Rightarrow> Some (c # g, r)
            | None \<Rightarrow> None)
      else None)"
| "re_match (GroupStar a # is) [] = re_match is []"
| "re_match (GroupStar a # is) (c # cs) =
     (if accepts a c
      then (case re_match (GroupStar a # is) cs of
              Some (g, r) \<Rightarrow> Some (c # g, r)
            | None \<Rightarrow> re_match is (c # cs))
      else re_match is (c # cs))"

definition lit :: "ustr \<Rightarrow> item list" where
  "lit w = map (\<lambda>c. One (Chr c)) w"

text \<open>
  \<open>scan\<close> is the loop shared by \<open>re.sub\<close> and \<open>str.replace\<close>: at each position, from left
  to right, try to match; on a match emit the replacement and continue behind the match,
  otherwise copy one character. A matcher returns the replacement and the remainder.
  No pattern of the script matches the empty string, so the guard on the remainder only
  serves the termination proof.
\<close>

function scan :: "(ustr \<Rightarrow> (ustr \<times> ustr) option) \<Rightarrow> ustr \<Rightarrow> ustr" where
  "scan m [] = []"
| "scan m (c # cs) =
     (case m (c # cs) of
        Some (rep, rest) \<Rightarrow>
          if length rest \<le> length cs then rep @ scan m rest else c # scan m cs
      | None \<Rightarrow> c # scan m cs)"
  by pat_completeness auto
termination
  by (relation "measure (\<lambda>(m, s). length s)") auto

definition re_sub :: "item list \<Rightarrow> (ustr \<Rightarrow> ustr) \<Rightarrow> ustr \<Rightarrow> ustr" where
  "re_sub pat repl s =
     scan (\<lambda>t. case re_match pat t of Some (g, r) \<Rightarrow> Some (repl g, r) | None \<Rightarrow> None) s"

definition match_literal :: "ustr \<Rightarrow> ustr \<Rightarrow> ustr \<Rightarrow> (ustr \<times> ustr) option" where
  "match_literal old new t =
     (case strip_prefix old t of Some r \<Rightarrow> Some (new, r) | None \<Rightarrow> None)"

definition str_replace :: "ustr \<Rightarrow> ustr \<Rightarrow> ustr \<Rightarrow> ustr" where
  "str_replace old new s = scan (match_literal old new) s"

section \<open>The text transform of fix_package_swift\<close>

definition decl_pattern :: "ustr \<Rightarrow> item list" where
  \<open>decl_pattern nm =
     lit (str ''.package('') @ [Star Space] @
     lit (str ''name: "'' @ nm @ str ''",'') @ [Star Space] @ lit (str ''url:'')\<close>

definition decl_names :: "ustr list" where
  "decl_names =
     [str ''AppAuth'', str ''AppCheck'', str ''GTMAppAuth'', str ''GTMSessionFetcher'',
      str ''GoogleUtilities'', str ''OCMock'']"

definition fix_declaration :: "ustr \<Rightarrow> ustr \<Rightarrow> ustr" where
  "fix_declaration nm = re_sub (decl_pattern nm) (\<lambda>g. str ''.package(url:'')"

definition fix_declarations :: "ustr \<Rightarrow> ustr" where
  "fix_declarations content = fold fix_declaration decl_names content"

definition revision_pattern :: "item list" where
  \<open>revision_pattern = lit (str ''.revision("'') @ [GroupPlus NotDquote] @ lit (str ''")'')\<close>

definition fix_revisions :: "ustr \<Rightarrow> ustr" where
  \<open>fix_revisions = re_sub revision_pattern (\<lambda>g. str ''revision: "'' @ g @ str ''"'')\<close>

definition package_ref :: "ustr \<Rightarrow> ustr" where
  \<open>package_ref nm = str ''package: "'' @ nm @ str ''"''\<close>

definition renames :: "(ustr \<times> ustr) list" where
  "renames =
     [(str ''AppAuth'', str ''appauth-ios''),
      (str ''AppCheck'', str ''app-check''),
      (str ''GTMAppAuth'', str ''gtmappauth''),
      (str ''GTMSessionFetcher'', str ''gtm-session-fetcher''),
      (str ''GoogleUtilities'', str ''googleutilities'')]"

definition fix_reference :: "ustr \<times> ustr \<Rightarrow> ustr \<Rightarrow> ustr" where
  "fix_reference p = str_replace (package_ref (fst p)) (package_ref (snd p))"

definition fix_references :: "ustr \<Rightarrow> ustr" where
  "fix_references content = fold fix_reference renames content"

definition fix_content :: "ustr \<Rightarrow> ustr" where
  "fix_content content = fix_references (fix_revisions (fix_declarations content))"

text \<open>
  The two regular expressions never need to backtrack: each repetition is followed by a
  literal character outside its class. \<open>match_declaration\<close> and \<open>match_revision\<close> are
  the matchers written out; \<open>fix_declaration_scan\<close> and \<open>fix_revisions_scan\<close> below
  prove that they are what \<open>re_sub\<close> computes.
\<close>

definition match_declaration :: "ustr \<Rightarrow> ustr \<Rightarrow> (ustr \<times> ustr) option" where
  \<open>match_declaration nm s =
     (case strip_prefix (str ''.package('') s of
        None \<Rightarrow> None
      | Some r1 \<Rightarrow>
          (case strip_prefix (str ''name: "'' @ nm @ str ''",'') (dropWhile is_space r1) of
             None \<Rightarrow> None
           | Some r2 \<Rightarrow>
               (case strip_prefix (str ''url:'') (dropWhile is_space r2) of
                  None \<Rightarrow> None
                | Some r3 \<Rightarrow> Some (str ''.package(url:'', r3))))\<close>

definition match_revision :: "ustr \<Rightarrow> (ustr \<times> ustr) option" where
  \<open>match_revision s =
     (case strip_prefix (str ''.revision("'') s of
        None \<Rightarrow> None
      | Some r \<Rightarrow>
          if takeWhile (\<lambda>c. c \<noteq> dquote) r = [] then None
          else (case strip_prefix (str ''")'') (dropWhile (\<lambda>c. c \<noteq> dquote) r) of
                  None \<Rightarrow> None
                | Some rest \<Rightarrow>
                    Some (str ''revision: "'' @ takeWhile (\<lambda>c. c \<noteq> dquote) r @ str ''"'', rest)))\<close>

text \<open>A matcher occurs in a buffer when it matches at some position.\<close>

fun occurs :: "(ustr \<Rightarrow> (ustr \<times> ustr) option) \<Rightarrow> ustr \<Rightarrow> bool" where
  "occurs m [] = False"
| "occurs m (c # cs) = (m (c # cs) \<noteq> None \<or> occurs m cs)"

definition targets :: "(ustr \<Rightarrow> (ustr \<times> ustr) option) list" where
  "targets =
     map match_declaration decl_names @ [match_revision] @
     map (\<lambda>p. match_literal (package_ref (fst p)) (package_ref (snd p))) renames"

definition has_target :: "ustr \<Rightarrow> bool" where
  "has_target s = list_ex (\<lambda>m. occurs m s) targets"

section \<open>Files, the locator, the rewriter and the entry point\<close>

text \<open>
  The world the script runs in: the home directory as \<open>Path.home()\<close> prints it (assumed
  free of glob metacharacters), the directories with their entries in the order
  \<open>os.scandir\<close> yields them, the regular files, the lines printed so far and the log of
  the calls that change a file. A file holds its decoded text (\<open>None\<close> when its bytes are
  not UTF-8) and its permission bits. The process owns its files and there are no
  symbolic links.
\<close>

datatype py_error = FileNotFoundError | IsADirectoryError | PermissionError | UnicodeDecodeError

datatype event = Chmod ustr nat | Write ustr ustr

record textfile =
  data :: "ustr option"
  mode :: nat

record world =
  home :: ustr
  dirs :: "ustr \<rightharpoonup> ustr list"
  files :: "ustr \<rightharpoonup> textfile"
  stdout :: "ustr list"
  syscalls :: "event list"

definition path_exists :: "world \<Rightarrow> ustr \<Rightarrow> bool" where
  "path_exists w p \<longleftrightarrow> dirs w p \<noteq> None \<or> files w p \<noteq> None"

definition joinpath :: "ustr \<Rightarrow> ustr \<Rightarrow> ustr" where
  "joinpath a b = (if a = str ''/'' then a @ b else a @ str ''/'' @ b)"

definition derived_data :: "world \<Rightarrow> ustr" where
  "derived_data w = joinpath (home w) (str ''Library/Developer/Xcode/DerivedData'')"

definition manifest_components :: "ustr list" where
  "manifest_components =
     [str ''SourcePackages'', str ''checkouts'', str ''GoogleSignIn-iOS'', str ''Package.swift'']"

definition manifest_suffix :: ustr where
  "manifest_suffix = str ''/SourcePackages/checkouts/GoogleSignIn-iOS/Package.swift''"

definition hidden :: "ustr \<Rightarrow> bool" where
  "hidden e = (case e of [] \<Rightarrow> False | c # cs \<Rightarrow> c = 46)"

text \<open>
  \<open>glob.glob\<close> on \<open><base>/*/SourcePackages/checkouts/GoogleSignIn-iOS/Package.swift\<close>:
  the wildcard takes the entries of the base directory that do not start with a dot, in
  directory order (nothing when the base cannot be listed); below each, the four literal
  components are followed one by one as long as the path exists.
\<close>

fun descend :: "world \<Rightarrow> ustr \<Rightarrow> ustr list \<Rightarrow> ustr option" where
  "descend w p [] = Some p"
| "descend w p (n # ns) =
     (if path_exists w (p @ str ''/'' @ n) then descend w (p @ str ''/'' @ n) ns else None)"

definition listdir :: "world \<Rightarrow> ustr \<Rightarrow> ustr list" where
  "listdir w p = (case dirs w p of None \<Rightarrow> [] | Some es \<Rightarrow> es)"

definition glob :: "world \<Rightarrow> ustr \<Rightarrow> ustr list" where
  "glob w base =
     List.map_filter (\<lambda>e. descend w (base @ str ''/'' @ e) manifest_components)
       (filter (\<lambda>e. \<not> hidden e) (listdir w base))"

definition find_package_file :: "world \<Rightarrow> ustr option" where
  "find_package_file w =
     (if \<not> path_exists w (derived_data w) then None
      else (case glob w (derived_data w) of [] \<Rightarrow> None | m # ms \<Rightarrow> Some m))"

text \<open>
  Reading in text mode turns \<open>\r\n\<close> and a lone \<open>\r\<close> into \<open>\n\<close>; writing leaves
  \<open>\n\<close> as it is on the systems the script is for.
\<close>

fun universal_newlines :: "ustr \<Rightarrow> ustr" where
  "universal_newlines [] = []"
| "universal_newlines [c] = [if c = 13 then 10 else c]"
| "universal_newlines (c # d # cs) =
     (if c = 13 then (if d = 10 then 10 # universal_newlines cs else 10 # universal_newlines (d # cs))
      else c # universal_newlines (d # cs))"

definition owner_can_read :: "nat \<Rightarrow> bool" where
  "owner_can_read m \<longleftrightarrow> (m div 256) mod 2 = 1"

definition owner_can_write :: "nat \<Rightarrow> bool" where
  "owner_can_write m \<longleftrightarrow> (m div 128) mod 2 = 1"

definition read_text :: "world \<Rightarrow> ustr \<Rightarrow> py_error + ustr" where
  "read_text w p =
     (case files w p of
        None \<Rightarrow> Inl (if dirs w p \<noteq> None then IsADirectoryError else FileNotFoundError)
      | Some f \<Rightarrow>
          if \<not> owner_can_read (mode f) then Inl PermissionError
          else (case data f of
                  None \<Rightarrow> Inl UnicodeDecodeError
                | Some raw \<Rightarrow> Inr (universal_newlines raw)))"

definition os_chmod :: "ustr \<Rightarrow> nat \<Rightarrow> world \<Rightarrow> py_error + world" where
  "os_chmod p m w =
     (case files w p of
        Some f \<Rightarrow>
          Inr (w\<lparr>files := (files w)(p \<mapsto> f\<lparr>mode := m\<rparr>), syscalls := syscalls w @ [Chmod p m]\<rparr>)
      | None \<Rightarrow>
          if dirs w p \<noteq> None then Inr (w\<lparr>syscalls := syscalls w @ [Chmod p m]\<rparr>)
          else Inl FileNotFoundError)"

definition write_text :: "ustr \<Rightarrow> ustr \<Rightarrow> world \<Rightarrow> py_error + world" where
  "write_text p t w =
     (case files w p of
        Some f \<Rightarrow>
          if owner_can_write (mode f)
          then Inr (w\<lparr>files := (files w)(p \<mapsto> f\<lparr>data := Some t\<rparr>),
                      syscalls := syscalls w @ [Write p t]\<rparr>)
          else Inl PermissionError
      | None \<Rightarrow>
          if dirs w p \<noteq> None then Inl IsADirectoryError
          else Inr (w\<lparr>files := (files w)(p \<mapsto> \<lparr>data = Some t, mode = 420\<rparr>),
                      syscalls := syscalls w @ [Write p t]\<rparr>))"

definition fix_package_swift :: "ustr \<Rightarrow> world \<Rightarrow> (py_error + bool) \<times> world" where
  "fix_package_swift file_path w =
     (case read_text w file_path of
        Inl e \<Rightarrow> (Inl e, w)
      | Inr original_content \<Rightarrow>
          let content = fix_content original_content in
          if content \<noteq> original_content
          then (case os_chmod file_path 420 w of
                  Inl e \<Rightarrow> (Inl e, w)
                | Inr w1 \<Rightarrow>
                    (case write_text file_path content w1 of
                       Inl e \<Rightarrow> (Inl e, w1)
                     | Inr w2 \<Rightarrow> (Inr True, w2)))
          else (Inr False, w))"

definition py_print :: "ustr \<Rightarrow> world \<Rightarrow> world" where
  "py_print line w = w\<lparr>stdout := stdout w @ [line]\<rparr>"

definition msg_not_found :: ustr where
  "msg_not_found = str ''GoogleSignIn-iOS Package.swift not found.''"

definition msg_resolve_first :: ustr where
  "msg_resolve_first = str ''Make sure Xcode has resolved packages first.''"

definition msg_found :: "ustr \<Rightarrow> ustr" where
  "msg_found package_file = str ''Found Package.swift at: '' @ package_file"

definition msg_fixed :: ustr where
  "msg_fixed = 10003 # str '' Fixed deprecated syntax in GoogleSignIn-iOS Package.swift''"

definition msg_already :: ustr where
  "msg_already = str ''Package.swift already fixed or doesn't need fixing''"

definition main :: "world \<Rightarrow> (py_error + unit) \<times> world" where
  "main w =
     (case find_package_file w of
        None \<Rightarrow> (Inr (), py_print msg_resolve_first (py_print msg_not_found w))
      | Some package_file \<Rightarrow>
          if package_file = [] then (Inr (), py_print msg_resolve_first (py_print msg_not_found w))
          else (case fix_package_swift package_file (py_print (msg_found package_file) w) of
                  (Inl e, w') \<Rightarrow> (Inl e, w')
                | (Inr changed, w') \<Rightarrow>
                    (Inr (), py_print (if changed then msg_fixed else msg_already) w')))"

text \<open>The exit status of the interpreter: 0 when \<open>main\<close> returns, 1 on an uncaught exception.\<close>

definition exit_status :: "(py_error + unit) \<times> world \<Rightarrow> nat" where
  "exit_status r = (case fst r of Inl e \<Rightarrow> 1 | Inr u \<Rightarrow> 0)"


text \<open>The entries of the base directory that the glob pattern accepts.\<close>

definition candidate :: "world \<Rightarrow> ustr \<Rightarrow> bool" where
  "candidate w e \<longleftrightarrow>
     \<not> hidden e \<and> descend w (derived_data w @ str ''/'' @ e) manifest_components \<noteq> None"

text \<open>A world for the examples: one build directory with the manifest, read-only.\<close>

definition example_manifest_path :: ustr where
  "example_manifest_path =
     str ''/Users/dev/Library/Developer/Xcode/DerivedData/App-abc/SourcePackages/checkouts/GoogleSignIn-iOS/Package.swift''"

definition example_world :: "ustr \<Rightarrow> world" where
  "example_world buf =
     \<lparr>home = str ''/Users/dev'',
      dirs = [str ''/Users/dev/Library/Developer/Xcode/DerivedData'' \<mapsto>
                [str ''.DS_Store'', str ''App-abc''],
              str ''/Users/dev/Library/Developer/Xcode/DerivedData/App-abc'' \<mapsto>
                [str ''SourcePackages''],
              str ''/Users/dev/Library/Developer/Xcode/DerivedData/App-abc/SourcePackages'' \<mapsto>
                [str ''checkouts''],
              str ''/Users/dev/Library/Developer/Xcode/DerivedData/App-abc/SourcePackages/checkouts'' \<mapsto>
                [str ''GoogleSignIn-iOS''],
              str ''/Users/dev/Library/Developer/Xcode/DerivedData/App-abc/SourcePackages/checkouts/GoogleSignIn-iOS'' \<mapsto>
                [str ''Package.swift'']],
      files = [example_manifest_path \<mapsto> \<lparr>data = Some buf, mode = 292\<rparr>],
      stdout = [], syscalls = []\<rparr>"

section \<open>Scanning\<close>

text \<open>
  A matcher is proper when every match consumes at least one character. A buffer \<open>a\<close> is
  stable before \<open>b\<close> when appending \<open>b\<close> changes no match attempt that starts in \<open>a\<close>.
\<close>

definition proper :: "(ustr \<Rightarrow> (ustr \<times> ustr) option) \<Rightarrow> bool" where
  "proper m \<longleftrightarrow> (\<forall>s rep r. m s = Some (rep, r) \<longrightarrow> (\<exists>mt. mt \<noteq> [] \<and> s = mt @ r))"


text \<open>
  Overlap of literals: \<open>clash old k\<close> holds when an occurrence of \<open>old\<close> that starts before
  \<open>k\<close> can run into \<open>k\<close>, \<open>inside old k\<close> when an occurrence of \<open>old\<close> can start inside
  \<open>k\<close>. \<open>separate\<close> collects the checks for a list of replacements.
\<close>

fun tails :: "'a list \<Rightarrow> 'a list list" where
  "tails [] = []"
| "tails (x # xs) = (x # xs) # tails xs"

definition comparable :: "'a list \<Rightarrow> 'a list \<Rightarrow> bool" where
  "comparable u v \<longleftrightarrow> prefix u v \<or> prefix v u"

definition clash :: "'a list \<Rightarrow> 'a list \<Rightarrow> bool" where
  "clash old k = list_ex (\<lambda>y. comparable y k) (tails (tl old))"

definition inside :: "'a list \<Rightarrow> 'a list \<Rightarrow> bool" where
  "inside old k = list_ex (\<lambda>t. comparable old t) (tails k)"

text \<open>
  The first replacement of a list whose search literal is a prefix of the buffer, and the
  sequential application of a list of replacements.
\<close>

fun match_first :: "(ustr \<times> ustr) list \<Rightarrow> ustr \<Rightarrow> (ustr \<times> ustr) option" where
  "match_first [] s = None"
| "match_first (p # ps) s =
     (case strip_prefix (fst p) s of Some r \<Rightarrow> Some (snd p, r) | None \<Rightarrow> match_first ps s)"

definition separate :: "(ustr \<times> ustr) list \<Rightarrow> bool" where
  "separate ps \<longleftrightarrow>
     list_all (\<lambda>p. fst p \<noteq> [] \<and>
       list_all (\<lambda>q. \<not> clash (fst p) (fst q) \<and> \<not> clash (fst p) (snd q) \<and>
                     \<not> inside (fst p) (snd q) \<and> (p \<noteq> q \<longrightarrow> \<not> inside (fst p) (fst q))) ps) ps"

definition replace_all :: "(ustr \<times> ustr) list \<Rightarrow> ustr \<Rightarrow> ustr" where
  "replace_all ps = fold (\<lambda>p. scan (match_literal (fst p) (snd p))) ps"

definition rename_literals :: "(ustr \<times> ustr) list" where
  "rename_literals = map (\<lambda>p. (package_ref (fst p), package_ref (snd p))) renames"

text \<open>
  Replacing simultaneously, in the words of the specification: one scan that, at each
  position, applies the first replacement whose search literal matches there.
\<close>

definition replace_simultaneously :: "(ustr \<times> ustr) list \<Rightarrow> ustr \<Rightarrow> ustr" where
  "replace_simultaneously ps s = scan (match_first ps) s"





section \<open>The regular expressions as direct matchers\<close>

lemma strip_prefix_Some_iff: "strip_prefix p s = Some r \<longleftrightarrow> s = p @ r"
  by (induction p s rule: strip_prefix.induct) auto

lemma strip_prefix_None_iff: "strip_prefix p s = None \<longleftrightarrow> \<not> prefix p s"
  by (induction p s rule: strip_prefix.induct) auto

lemma strip_prefix_append_same [simp]: "strip_prefix p (p @ r) = Some r"
  by (simp add: strip_prefix_Some_iff)

lemma re_match_lit:
  "re_match (lit w @ is) s = (case strip_prefix w s of None \<Rightarrow> None | Some r \<Rightarrow> re_match is r)"
  by (induction w s rule: strip_prefix.induct) (auto simp: lit_def)

lemma re_match_star:
  assumes "\<not> accepts a b"
  shows "re_match (Star a # One (Chr b) # is) s = re_match (One (Chr b) # is) (dropWhile (accepts a) s)"
proof (induction s)
  case Nil
  show ?case by simp
next
  case (Cons c cs)
  show ?case
  proof (cases "accepts a c")
    case True
    with assms have "c \<noteq> b" by auto
    with True Cons show ?thesis by (simp split: option.splits)
  next
    case False
    then show ?thesis by simp
  qed
qed

lemma re_match_group_star:
  assumes "\<not> accepts a b"
  shows "re_match (GroupStar a # One (Chr b) # is) s =
    (case re_match (One (Chr b) # is) (dropWhile (accepts a) s) of
       None \<Rightarrow> None | Some (g, r) \<Rightarrow> Some (takeWhile (accepts a) s @ g, r))"
proof (induction s)
  case Nil
  show ?case by simp
next
  case (Cons c cs)
  show ?case
  proof (cases "accepts a c")
    case True
    with assms have "c \<noteq> b" by auto
    with True Cons show ?thesis by (simp split: option.splits)
  next
    case False
    with assms show ?thesis by (auto split: option.splits)
  qed
qed

lemma re_match_group_plus:
  assumes "\<not> accepts a b"
  shows "re_match (GroupPlus a # One (Chr b) # is) s =
    (if takeWhile (accepts a) s = [] then None
     else case re_match (One (Chr b) # is) (dropWhile (accepts a) s) of
       None \<Rightarrow> None | Some (g, r) \<Rightarrow> Some (takeWhile (accepts a) s @ g, r))"
  by (cases s) (auto simp: re_match_group_star[OF assms] split: option.splits)

lemma accepts_Space: "accepts Space = is_space"
  by (rule ext) simp

lemma accepts_NotDquote: "accepts NotDquote = (\<lambda>c. c \<noteq> dquote)"
  by (rule ext) simp

lemma re_match_lit_end:
  "re_match (lit w) s = (case strip_prefix w s of None \<Rightarrow> None | Some r \<Rightarrow> Some ([], r))"
  using re_match_lit[of w "[]" s] by (simp split: option.splits)

lemma re_match_One_lit_end:
  "re_match (One (Chr b) # lit w) x =
     (case x of [] \<Rightarrow> None
      | c # cs \<Rightarrow> if c = b then (case strip_prefix w cs of None \<Rightarrow> None | Some r \<Rightarrow> Some ([], r)) else None)"
  by (cases x) (simp_all add: re_match_lit_end)

lemma re_match_One_lit:
  "re_match (One (Chr b) # lit w @ is) x =
     (case x of [] \<Rightarrow> None
      | c # cs \<Rightarrow> if c = b then (case strip_prefix w cs of None \<Rightarrow> None | Some r \<Rightarrow> re_match is r) else None)"
  by (cases x) (simp_all add: re_match_lit)

lemma decl_pattern_match:
  "(case re_match (decl_pattern nm) s of Some (g, r) \<Rightarrow> Some (str ''.package(url:'', r) | None \<Rightarrow> None)
     = match_declaration nm s"
proof -
  have n: "\<not> accepts Space 110" and u: "\<not> accepts Space 117"
    by (simp_all add: is_space_def)
  have l1: \<open>lit (str ''name: "'' @ nm @ str ''",'') = One (Chr 110) # lit (str ''ame: "'' @ nm @ str ''",'')\<close>
    by (simp add: lit_def str_def)
  have l2: "lit (str ''url:'') = One (Chr 117) # lit (str ''rl:'')"
    by (simp add: lit_def str_def)
  have k2: "re_match (One (Chr 117) # lit (str ''rl:'')) x =
      (case strip_prefix (str ''url:'') x of None \<Rightarrow> None | Some r \<Rightarrow> Some ([], r))" for x
    by (cases x) (simp_all add: re_match_lit_end str_def)
  have k1: \<open>re_match (One (Chr 110) # lit (str ''ame: "'' @ nm @ str ''",'') @ is) x =
      (case strip_prefix (str ''name: "'' @ nm @ str ''",'') x of None \<Rightarrow> None | Some r \<Rightarrow> re_match is r)\<close> for x "is"
    by (cases x) (simp_all add: re_match_lit str_def)
  have m2: "re_match (Star Space # lit (str ''url:'')) t =
      (case strip_prefix (str ''url:'') (dropWhile is_space t) of None \<Rightarrow> None | Some r \<Rightarrow> Some ([], r))" for t
    unfolding l2 re_match_star[OF u] k2 accepts_Space ..
  have m1: \<open>re_match (Star Space # lit (str ''name: "'' @ nm @ str ''",'') @ Star Space # lit (str ''url:'')) t =
      (case strip_prefix (str ''name: "'' @ nm @ str ''",'') (dropWhile is_space t) of None \<Rightarrow> None
       | Some r \<Rightarrow> re_match (Star Space # lit (str ''url:'')) r)\<close> for t
    unfolding l1 append_Cons re_match_star[OF n] k1 accepts_Space ..
  show ?thesis
    unfolding decl_pattern_def match_declaration_def append_Cons append_Nil re_match_lit
    by (simp add: m1 m2 split: option.splits)
qed

lemma fix_declaration_scan: "fix_declaration nm = scan (match_declaration nm)"
  by (rule ext) (simp add: fix_declaration_def re_sub_def decl_pattern_match)

lemma revision_pattern_match:
  \<open>(case re_match revision_pattern s of
      Some (g, r) \<Rightarrow> Some (str ''revision: "'' @ g @ str ''"'', r) | None \<Rightarrow> None)
     = match_revision s\<close>
proof -
  have q: "\<not> accepts NotDquote 34"
    by (simp add: dquote_def)
  have l: \<open>lit (str ''")'') = One (Chr 34) # lit (str '')'')\<close>
    by (simp add: lit_def str_def)
  have k: \<open>re_match (One (Chr 34) # lit (str '')'')) x =
      (case strip_prefix (str ''")'') x of None \<Rightarrow> None | Some r \<Rightarrow> Some ([], r))\<close> for x
    by (cases x) (simp_all add: re_match_lit_end str_def)
  have m: \<open>re_match (GroupPlus NotDquote # lit (str ''")'')) t =
     (if takeWhile (\<lambda>c. c \<noteq> dquote) t = [] then None
      else case strip_prefix (str ''")'') (dropWhile (\<lambda>c. c \<noteq> dquote) t) of
             None \<Rightarrow> None | Some r \<Rightarrow> Some (takeWhile (\<lambda>c. c \<noteq> dquote) t, r))\<close> for t
    unfolding l re_match_group_plus[OF q] k accepts_NotDquote
    by (simp split: option.splits)
  show ?thesis
    unfolding revision_pattern_def match_revision_def append_Cons append_Nil re_match_lit
    by (simp add: m split: option.splits)
qed

lemma fix_revisions_scan: "fix_revisions = scan match_revision"
  by (rule ext) (simp add: fix_revisions_def re_sub_def revision_pattern_match)


lemma fix_reference_scan:
  "fix_reference p = scan (match_literal (package_ref (fst p)) (package_ref (snd p)))"
  by (rule ext) (simp add: fix_reference_def str_replace_def)

lemma scan_no_occurrence: "\<not> occurs m s \<Longrightarrow> scan m s = s"
  by (induction s) (auto split: option.splits)

lemmas eval_simps = fix_content_def fix_references_def fix_reference_scan fix_revisions_scan
  fix_declarations_def fix_declaration_scan renames_def decl_names_def
  match_declaration_def match_revision_def
  match_literal_def package_ref_def str_def is_space_def dquote_def

section \<open>The rewriter and the file\<close>

lemma no_target_fix_content: "\<not> has_target s \<Longrightarrow> fix_content s = s"
  by (simp add: has_target_def targets_def fix_content_def fix_declarations_def decl_names_def
      fix_declaration_scan fix_revisions_scan fix_references_def renames_def fix_reference_scan
      scan_no_occurrence)

lemma fix_package_swift_unchanged:
  assumes "files w p = Some f" and "owner_can_read (mode f)" and "data f = Some raw"
    and "fix_content (universal_newlines raw) = universal_newlines raw"
  shows "fix_package_swift p w = (Inr False, w)"
  using assms by (simp add: fix_package_swift_def read_text_def)

lemma example_world_file:
  "files (example_world b) example_manifest_path = Some \<lparr>data = Some b, mode = 292\<rparr>"
  by (simp add: example_world_def)

lemma example_world_derived:
  "derived_data (example_world b) = str ''/Users/dev/Library/Developer/Xcode/DerivedData''"
  by (simp add: derived_data_def example_world_def joinpath_def str_def)

lemma universal_newlines_plain: "universal_newlines (str ''import x'') = str ''import x''"
  by (simp add: str_def)

lemma no_target_plain: "\<not> has_target (str ''import x'')"
  by (simp add: has_target_def targets_def eval_simps)

text \<open>
  C5. When the substitutions leave the buffer as it was read (as they do on a buffer in
  which no pattern matches anywhere), the rewriter returns False and the world is the one
  it started from: no file content, no permission bits and no logged call have changed.
\<close>

theorem unchanged_no_write:
  assumes "files w p = Some f" and "owner_can_read (mode f)" and "data f = Some raw"
    and "fix_content (universal_newlines raw) = universal_newlines raw
         \<or> \<not> has_target (universal_newlines raw)"
  shows "fix_package_swift p w = (Inr False, w)"
proof -
  from assms(4) have "fix_content (universal_newlines raw) = universal_newlines raw"
    using no_target_fix_content by blast
  with assms(1-3) show ?thesis
    by (rule fix_package_swift_unchanged)
qed

theorem unchanged_no_write_witness:
  "fix_package_swift example_manifest_path (example_world (str ''import x''))
     = (Inr False, example_world (str ''import x''))"
  by (rule unchanged_no_write[where f = "\<lparr>data = Some (str ''import x''), mode = 292\<rparr>"
        and raw = "str ''import x''"])
    (simp_all add: example_world_file owner_can_read_def universal_newlines_plain no_target_plain)

lemma example_changed:
  \<open>fix_content (str ''package: "AppAuth"'') = str ''package: "appauth-ios"''\<close>
  by (simp add: eval_simps)

text \<open>
  C6. When the substitutions change the buffer, the rewriter first sets the mode of the
  file to 0o644 (420), then replaces the whole content by the transformed buffer, and
  returns True; the log holds exactly these two calls, in this order.
\<close>

theorem changed_chmod_then_write:
  assumes "files w p = Some f" and "owner_can_read (mode f)" and "data f = Some raw"
    and "fix_content (universal_newlines raw) \<noteq> universal_newlines raw"
  shows "os_chmod p 420 w =
           Inr (w\<lparr>files := (files w)(p \<mapsto> f\<lparr>mode := 420\<rparr>), syscalls := syscalls w @ [Chmod p 420]\<rparr>)
       \<and> fix_package_swift p w =
           (Inr True,
            w\<lparr>files := (files w)(p \<mapsto> f\<lparr>mode := 420, data := Some (fix_content (universal_newlines raw))\<rparr>),
              syscalls := syscalls w @ [Chmod p 420, Write p (fix_content (universal_newlines raw))]\<rparr>)"
  using assms
  by (simp add: fix_package_swift_def read_text_def os_chmod_def write_text_def owner_can_write_def
      Let_def)

theorem changed_chmod_then_write_witness:
  \<open>fix_package_swift example_manifest_path (example_world (str ''package: "AppAuth"'')) =
     (Inr True,
      (example_world (str ''package: "AppAuth"''))
        \<lparr>files := [example_manifest_path \<mapsto> \<lparr>data = Some (str ''package: "appauth-ios"''), mode = 420\<rparr>],
         syscalls := [Chmod example_manifest_path 420,
                      Write example_manifest_path (str ''package: "appauth-ios"'')]\<rparr>)\<close>
proof -
  have u: \<open>universal_newlines (str ''package: "AppAuth"'') = str ''package: "AppAuth"''\<close>
    by (simp add: str_def)
  have n: \<open>str ''package: "appauth-ios"'' \<noteq> str ''package: "AppAuth"''\<close>
    by (simp add: str_def)
  have \<open>fix_package_swift example_manifest_path (example_world (str ''package: "AppAuth"'')) =
     (Inr True,
      (example_world (str ''package: "AppAuth"''))
        \<lparr>files := (files (example_world (str ''package: "AppAuth"'')))
           (example_manifest_path \<mapsto> \<lparr>data = Some (str ''package: "AppAuth"''), mode = 292\<rparr>
              \<lparr>mode := 420, data := Some (fix_content (universal_newlines (str ''package: "AppAuth"'')))\<rparr>),
         syscalls := syscalls (example_world (str ''package: "AppAuth"'')) @ [Chmod example_manifest_path 420,
                      Write example_manifest_path (fix_content (universal_newlines (str ''package: "AppAuth"'')))]\<rparr>)\<close>
    using changed_chmod_then_write[where w = \<open>example_world (str ''package: "AppAuth"'')\<close>
        and p = example_manifest_path and raw = \<open>str ''package: "AppAuth"''\<close>
        and f = \<open>\<lparr>data = Some (str ''package: "AppAuth"''), mode = 292\<rparr>\<close>]
    by (simp add: example_world_file owner_can_read_def u n example_changed)
  then show ?thesis
    by (simp add: u example_changed example_world_def)
qed

section \<open>The locator\<close>

lemma descend_path:
  "descend w p ns = Some q \<Longrightarrow> q = p @ concat (map (\<lambda>n. str ''/'' @ n) ns)"
proof (induction ns arbitrary: p)
  case Nil
  then show ?case by simp
next
  case (Cons n ns)
  from Cons.prems have "descend w (p @ str ''/'' @ n) ns = Some q"
    by (simp split: if_splits)
  from Cons.IH[OF this] show ?case by simp
qed

lemma concat_manifest_components:
  "concat (map (\<lambda>n. str ''/'' @ n) manifest_components) = manifest_suffix"
  by (simp add: manifest_components_def manifest_suffix_def str_def)

lemma descend_manifest:
  "descend w p manifest_components = Some q \<Longrightarrow> q = p @ manifest_suffix"
  using descend_path[of w p manifest_components q] by (simp add: concat_manifest_components)

lemma first_of_map_filter:
  "(case List.map_filter f xs of [] \<Rightarrow> None | m # ms \<Rightarrow> Some m) =
     (case List.find (\<lambda>x. f x \<noteq> None) xs of None \<Rightarrow> None | Some x \<Rightarrow> f x)"
  by (induction xs) (auto simp: List.map_filter_simps split: option.splits)

lemma find_filter: "List.find P (filter Q xs) = List.find (\<lambda>x. Q x \<and> P x) xs"
  by (induction xs) auto

lemma glob_first:
  "(case glob w (derived_data w) of [] \<Rightarrow> None | m # ms \<Rightarrow> Some m) =
     map_option (\<lambda>e. derived_data w @ str ''/'' @ e @ manifest_suffix)
       (List.find (candidate w) (listdir w (derived_data w)))"
proof -
  let ?f = "\<lambda>e. descend w (derived_data w @ str ''/'' @ e) manifest_components"
  let ?es = "listdir w (derived_data w)"
  have "(case glob w (derived_data w) of [] \<Rightarrow> None | m # ms \<Rightarrow> Some m) =
      (case List.find (candidate w) ?es of None \<Rightarrow> None | Some x \<Rightarrow> ?f x)"
    unfolding glob_def first_of_map_filter find_filter candidate_def ..
  also have "\<dots> = map_option (\<lambda>e. derived_data w @ str ''/'' @ e @ manifest_suffix)
       (List.find (candidate w) ?es)"
  proof (cases "List.find (candidate w) ?es")
    case None
    then show ?thesis by simp
  next
    case (Some e)
    then have "candidate w e"
      by (auto simp: find_Some_iff)
    then obtain q where q: "?f e = Some q"
      by (auto simp: candidate_def)
    from descend_manifest[OF q] q Some show ?thesis by simp
  qed
  finally show ?thesis .
qed

lemma find_package_file_eq:
  "find_package_file w =
     (if path_exists w (derived_data w)
      then map_option (\<lambda>e. derived_data w @ str ''/'' @ e @ manifest_suffix)
             (List.find (candidate w) (listdir w (derived_data w)))
      else None)"
  using glob_first[of w] by (simp add: find_package_file_def)

lemma find_package_file_Some:
  assumes "find_package_file w = Some p"
  shows "\<exists>e. p = derived_data w @ str ''/'' @ e @ manifest_suffix"
  using assms by (auto simp: find_package_file_eq split: if_splits)

lemma example_candidates:
  "\<not> candidate (example_world b) (str ''.DS_Store'')" "candidate (example_world b) (str ''App-abc'')"
  unfolding candidate_def example_world_derived
  by (simp_all add: hidden_def manifest_components_def path_exists_def example_world_def
      example_manifest_path_def str_def)

lemma example_listdir:
  "listdir (example_world b) (derived_data (example_world b)) = [str ''.DS_Store'', str ''App-abc'']"
  unfolding example_world_derived by (simp add: listdir_def example_world_def) (simp add: str_def)

lemma example_exists: "path_exists (example_world b) (derived_data (example_world b))"
  by (simp add: example_world_derived path_exists_def) (simp add: example_world_def str_def)

lemma example_path:
  "derived_data (example_world b) @ str ''/'' @ str ''App-abc'' @ manifest_suffix = example_manifest_path"
  by (simp add: example_world_derived manifest_suffix_def example_manifest_path_def str_def)

lemma example_world_find: "find_package_file (example_world b) = Some example_manifest_path"
  by (simp add: find_package_file_eq example_exists example_listdir example_candidates example_path)

lemma example_no_dirs:
  "\<not> path_exists ((example_world b)\<lparr>dirs := Map.empty\<rparr>)
       (derived_data ((example_world b)\<lparr>dirs := Map.empty\<rparr>))"
  by (simp add: path_exists_def derived_data_def example_world_def joinpath_def
      example_manifest_path_def str_def)





section \<open>The entry point\<close>

lemma found_path_nonempty: "find_package_file w = Some p \<Longrightarrow> p \<noteq> []"
  by (auto dest!: find_package_file_Some simp: manifest_suffix_def str_def)

lemma fix_package_swift_stdout:
  "fix_package_swift p w = (r, w') \<Longrightarrow> stdout w' = stdout w"
  by (auto simp: fix_package_swift_def os_chmod_def write_text_def Let_def
      split: sum.splits if_splits option.splits)

text \<open>
  C8. When the locator finds nothing, the entry point prints the two fixed lines, changes
  nothing else and returns. When a path is found, it prints the path line, runs the
  rewriter and, when the rewriter returns b, prints the one status line b selects. In both
  cases, and whenever the rewriter raises no error, the exit status is 0.
\<close>

theorem main_reports:
  "(find_package_file w = None \<longrightarrow>
      main w = (Inr (), w\<lparr>stdout := stdout w @ [msg_not_found, msg_resolve_first]\<rparr>)) \<and>
   (\<forall>p b w'. find_package_file w = Some p \<and>
        fix_package_swift p (w\<lparr>stdout := stdout w @ [msg_found p]\<rparr>) = (Inr b, w') \<longrightarrow>
      main w = (Inr (), w'\<lparr>stdout := stdout w' @ [if b then msg_fixed else msg_already]\<rparr>) \<and>
      stdout w' = stdout w @ [msg_found p]) \<and>
   ((\<forall>p e w'. find_package_file w = Some p \<longrightarrow>
        fix_package_swift p (w\<lparr>stdout := stdout w @ [msg_found p]\<rparr>) \<noteq> (Inl e, w')) \<longrightarrow>
      exit_status (main w) = 0)"
proof (intro conjI allI impI)
  assume "find_package_file w = None"
  then show "main w = (Inr (), w\<lparr>stdout := stdout w @ [msg_not_found, msg_resolve_first]\<rparr>)"
    by (simp add: main_def py_print_def)
next
  fix p b w'
  assume a: "find_package_file w = Some p \<and>
        fix_package_swift p (w\<lparr>stdout := stdout w @ [msg_found p]\<rparr>) = (Inr b, w')"
  then have "p \<noteq> []"
    using found_path_nonempty by blast
  with a show "main w = (Inr (), w'\<lparr>stdout := stdout w' @ [if b then msg_fixed else msg_already]\<rparr>)"
    by (simp add: main_def py_print_def)
  from a show "stdout w' = stdout w @ [msg_found p]"
    using fix_package_swift_stdout by fastforce
next
  assume a: "\<forall>p e w'. find_package_file w = Some p \<longrightarrow>
        fix_package_swift p (w\<lparr>stdout := stdout w @ [msg_found p]\<rparr>) \<noteq> (Inl e, w')"
  show "exit_status (main w) = 0"
  proof (cases "find_package_file w")
    case None
    then show ?thesis by (simp add: main_def exit_status_def)
  next
    case (Some p)
    with a show ?thesis
      by (cases "fix_package_swift p (w\<lparr>stdout := stdout w @ [msg_found p]\<rparr>)")
        (auto simp: main_def exit_status_def py_print_def split: sum.splits)
  qed
qed

theorem main_reports_witness:
  "main (example_world (str ''import x'')) =
     (Inr (), (example_world (str ''import x''))
        \<lparr>stdout := [msg_found example_manifest_path, msg_already]\<rparr>) \<and>
   main ((example_world [])\<lparr>dirs := Map.empty\<rparr>) =
     (Inr (), (example_world [])\<lparr>dirs := Map.empty, stdout := [msg_not_found, msg_resolve_first]\<rparr>) \<and>
   exit_status (main ((example_world [])\<lparr>dirs := Map.empty\<rparr>)) = 0"
proof -
  let ?w = "example_world (str ''import x'')"
  let ?w1 = "?w\<lparr>stdout := stdout ?w @ [msg_found example_manifest_path]\<rparr>"
  have f: "fix_package_swift example_manifest_path ?w1 = (Inr False, ?w1)"
    by (rule fix_package_swift_unchanged[where f = "\<lparr>data = Some (str ''import x''), mode = 292\<rparr>"
          and raw = "str ''import x''"])
      (simp_all add: example_world_file owner_can_read_def universal_newlines_plain
        no_target_fix_content[OF no_target_plain])
  have n: "find_package_file ((example_world [])\<lparr>dirs := Map.empty\<rparr>) = None"
    using example_no_dirs[of "[]"] by (simp add: find_package_file_eq)
  have "find_package_file ?w = Some example_manifest_path \<and>
        fix_package_swift example_manifest_path ?w1 = (Inr False, ?w1) \<longrightarrow>
      main ?w = (Inr (), ?w1\<lparr>stdout := stdout ?w1 @ [if False then msg_fixed else msg_already]\<rparr>) \<and>
      stdout ?w1 = stdout ?w @ [msg_found example_manifest_path]"
    using main_reports[of ?w] by blast
  with example_world_find[of "str ''import x''"] f
  have "main ?w = (Inr (), ?w1\<lparr>stdout := stdout ?w1 @ [msg_already]\<rparr>)"
    by simp
  then have "main ?w = (Inr (), ?w\<lparr>stdout := [msg_found example_manifest_path, msg_already]\<rparr>)"
    by (simp add: example_world_def)
  moreover from main_reports[of "(example_world [])\<lparr>dirs := Map.empty\<rparr>"] n
  have "main ((example_world [])\<lparr>dirs := Map.empty\<rparr>) =
     (Inr (), (example_world [])\<lparr>dirs := Map.empty, stdout := [msg_not_found, msg_resolve_first]\<rparr>)
     \<and> exit_status (main ((example_world [])\<lparr>dirs := Map.empty\<rparr>)) = 0"
    by (simp add: example_world_def exit_status_def)
  ultimately show ?thesis
    by blast
qed

lemma properD: "proper m \<Longrightarrow> m s = Some (rep, r) \<Longrightarrow> \<exists>mt. mt \<noteq> [] \<and> s = mt @ r"
  by (auto simp: proper_def)

lemma proper_length: "proper m \<Longrightarrow> m (c # cs) = Some (rep, r) \<Longrightarrow> length r \<le> length cs"
  by (drule (1) properD) (auto simp: Cons_eq_append_conv)

lemma scan_hit: "proper m \<Longrightarrow> m s = Some (rep, r) \<Longrightarrow> scan m s = rep @ scan m r"
  by (cases s) (auto dest: properD proper_length)

lemma scan_miss: "m (c # cs) = None \<Longrightarrow> scan m (c # cs) = c # scan m cs"
  by simp




lemma scan_through:
  "(\<And>t. t \<noteq> [] \<Longrightarrow> suffix t u \<Longrightarrow> m (t @ z) = None) \<Longrightarrow> scan m (u @ z) = u @ scan m z"
proof (induction u)
  case Nil
  then show ?case by simp
next
  case (Cons c u)
  have "m ((c # u) @ z) = None"
    by (rule Cons.prems) auto
  moreover have "scan m (u @ z) = u @ scan m z"
    by (rule Cons.IH) (auto intro: Cons.prems simp: suffix_Cons)
  ultimately show ?case by simp
qed

lemma set_tails: "set (tails xs) = {t. t \<noteq> [] \<and> suffix t xs}"
  by (induction xs) (auto simp: suffix_Cons)

lemma same_list_comparable: "u @ p = v @ q \<Longrightarrow> comparable u v"
  by (auto simp: comparable_def append_eq_append_conv2)

lemma prefix_append_comparable: "prefix o' (t @ z) \<Longrightarrow> comparable o' t"
  by (auto simp: comparable_def prefix_append)

lemma match_literal_Some_iff:
  "match_literal old new s = Some (rep, r) \<longleftrightarrow> rep = new \<and> s = old @ r"
  by (auto simp: match_literal_def strip_prefix_Some_iff split: option.splits)

lemma match_literal_None_iff: "match_literal old new s = None \<longleftrightarrow> \<not> prefix old s"
proof -
  have "match_literal old new s = None \<longleftrightarrow> strip_prefix old s = None"
    by (simp add: match_literal_def split: option.splits)
  then show ?thesis by (simp add: strip_prefix_None_iff)
qed

lemma proper_literal: "old \<noteq> [] \<Longrightarrow> proper (match_literal old new)"
  by (auto simp: proper_def match_literal_Some_iff)

lemma literal_hit:
  "old \<noteq> [] \<Longrightarrow> scan (match_literal old new) (old @ z) = new @ scan (match_literal old new) z"
  by (rule scan_hit[OF proper_literal]) (simp_all add: match_literal_Some_iff)

lemma literal_inert:
  assumes "\<not> inside old k"
  shows "scan (match_literal old new) (k @ z) = k @ scan (match_literal old new) z"
proof (rule scan_through)
  fix t assume "t \<noteq> []" "suffix t k"
  then have "t \<in> set (tails k)" by (simp add: set_tails)
  with assms have "\<not> comparable old t"
    by (auto simp: inside_def list_ex_iff)
  then show "match_literal old new (t @ z) = None"
    using prefix_append_comparable by (auto simp: match_literal_None_iff)
qed





lemma separateD:
  assumes "separate ps" "p \<in> set ps" "q \<in> set ps"
  shows "fst p \<noteq> []" "\<not> clash (fst p) (fst q)" "\<not> clash (fst p) (snd q)"
    "\<not> inside (fst p) (snd q)" "p \<noteq> q \<Longrightarrow> \<not> inside (fst p) (fst q)"
  using assms by (auto simp: separate_def list_all_iff)


section \<open>Sequential and simultaneous replacement\<close>

lemma match_first_Some:
  "match_first ps s = Some (rep, r) \<Longrightarrow> \<exists>old. (old, rep) \<in> set ps \<and> s = old @ r"
  by (induction ps) (auto simp: strip_prefix_Some_iff split: option.splits)

lemma match_first_None: "match_first ps s = None \<longleftrightarrow> (\<forall>p\<in>set ps. \<not> prefix (fst p) s)"
  by (induction ps) (auto simp: strip_prefix_None_iff strip_prefix_Some_iff split: option.splits)

lemma match_first_append:
  "match_first (ps @ qs) s = (case match_first ps s of Some x \<Rightarrow> Some x | None \<Rightarrow> match_first qs s)"
  by (induction ps) (auto split: option.splits)

lemma proper_match_first: "(\<And>p. p \<in> set ps \<Longrightarrow> fst p \<noteq> []) \<Longrightarrow> proper (match_first ps)"
  unfolding proper_def by (auto dest!: match_first_Some)

lemma scan_reflect:
  assumes "proper m"
    and "\<And>s rep r u. m s = Some (rep, r) \<Longrightarrow> u \<in> set (tails w) \<Longrightarrow> \<not> comparable u rep"
  shows "scan m x = w @ y \<Longrightarrow> \<exists>x'. x = w @ x' \<and> scan m x' = y"
  using assms(2)
proof (induction w arbitrary: x)
  case Nil
  then show ?case by simp
next
  case (Cons a w)
  show ?case
  proof (cases x)
    case Nil
    with Cons.prems show ?thesis by simp
  next
    case (Cons c cs)
    show ?thesis
    proof (cases "m x")
      case None
      with Cons Cons.prems(1) have "c = a" "scan m cs = w @ y" by auto
      moreover have "\<exists>x'. cs = w @ x' \<and> scan m x' = y"
        by (rule Cons.IH[OF \<open>scan m cs = w @ y\<close>]) (use Cons.prems(2) in auto)
      ultimately show ?thesis using Cons by auto
    next
      case (Some p)
      obtain rep r where p: "p = (rep, r)" by (cases p)
      with Some scan_hit[OF assms(1)] Cons.prems(1) have "rep @ scan m r = (a # w) @ y"
        by simp
      then have "comparable (a # w) rep"
        using same_list_comparable by metis
      with Cons.prems(2)[of x rep r "a # w"] Some p show ?thesis by simp
    qed
  qed
qed

lemma sequential_step:
  assumes old: "old \<noteq> []" and ne: "\<And>p. p \<in> set ps \<Longrightarrow> fst p \<noteq> []"
    and c: "\<And>p. p \<in> set ps \<Longrightarrow>
              \<not> inside old (snd p) \<and> \<not> clash old (snd p) \<and> \<not> inside (fst p) old"
  shows "scan (match_literal old new) (scan (match_first ps) s) = scan (match_first (ps @ [(old, new)])) s"
proof (induction s rule: length_induct)
  case (1 s)
  let ?M = "match_first ps" and ?M' = "match_first (ps @ [(old, new)])"
  let ?L = "match_literal old new"
  have pM: "proper ?M" by (rule proper_match_first) (rule ne)
  have pM': "proper ?M'" by (rule proper_match_first) (use ne old in auto)
  show ?case
  proof (cases s)
    case Nil
    then show ?thesis by simp
  next
    case (Cons c cs)
    show ?thesis
    proof (cases "?M s")
      case (Some p)
      obtain rep r where p: "p = (rep, r)" by (cases p)
      from match_first_Some[OF Some[unfolded p]] obtain o' where o': "(o', rep) \<in> set ps" "s = o' @ r"
        by blast
      with ne[of "(o', rep)"] have len: "length r < length s" by simp
      have "\<not> inside old rep" using c[OF o'(1)] by simp
      then have "scan ?L (rep @ scan ?M r) = rep @ scan ?L (scan ?M r)"
        by (rule literal_inert)
      moreover have "?M' s = Some (rep, r)"
        using Some p by (simp add: match_first_append)
      ultimately show ?thesis
        using scan_hit[OF pM Some[unfolded p]] scan_hit[OF pM'] 1 len by simp
    next
      case None
      show ?thesis
      proof (cases "prefix old s")
        case True
        then obtain r where r: "s = old @ r" by (auto simp: prefix_def)
        with old have len: "length r < length s" by simp
        have "scan ?M (old @ r) = old @ scan ?M r"
        proof (rule scan_through)
          fix t assume t: "t \<noteq> []" "suffix t old"
          show "?M (t @ r) = None"
          proof (rule ccontr)
            assume "?M (t @ r) \<noteq> None"
            then obtain q where q: "q \<in> set ps" "prefix (fst q) (t @ r)"
              by (auto simp: match_first_None)
            then have "comparable (fst q) t" by (simp add: prefix_append_comparable)
            with t have "inside (fst q) old"
              by (auto simp: inside_def list_ex_iff set_tails)
            with c[OF q(1)] show False by simp
          qed
        qed
        moreover have "?M' s = Some (new, r)"
          using None r by (simp add: match_first_append)
        ultimately show ?thesis
          using scan_hit[OF pM'] literal_hit[OF old, of new] 1 len r by simp
      next
        case False
        have "\<not> prefix old (c # scan ?M cs)"
        proof
          assume "prefix old (c # scan ?M cs)"
          with old obtain y where y: "old = c # tl old" "scan ?M cs = tl old @ y"
            by (cases old) (auto simp: prefix_def)
          have "\<exists>x'. cs = tl old @ x' \<and> scan ?M x' = y"
          proof (rule scan_reflect[OF pM _ y(2)])
            fix s' rep r u assume "?M s' = Some (rep, r)" "u \<in> set (tails (tl old))"
            with match_first_Some[of ps s' rep r] c show "\<not> comparable u rep"
              by (fastforce simp: clash_def list_ex_iff)
          qed
          with y Cons have "prefix old s" by (metis prefixI append_Cons)
          with False show False by simp
        qed
        then have "?L (c # scan ?M cs) = None"
          by (simp add: match_literal_None_iff)
        moreover have "?M' s = None"
          using None False by (simp add: match_first_append strip_prefix_None_iff[THEN iffD2])
        ultimately show ?thesis
          using None Cons 1 by simp
      qed
    qed
  qed
qed

lemma sequential_simultaneous:
  assumes "separate ps" "distinct ps"
  shows "replace_all ps s = scan (match_first ps) s"
  using assms
proof (induction ps arbitrary: s rule: rev_induct)
  case Nil
  have "scan (\<lambda>a. None) s = s"
    by (induction s) auto
  then show ?case by (simp add: replace_all_def)
next
  case (snoc p ps)
  have sep: "separate ps"
    using snoc.prems(1) by (auto simp: separate_def list_all_iff)
  have "replace_all (ps @ [p]) s = scan (match_literal (fst p) (snd p)) (replace_all ps s)"
    by (simp add: replace_all_def)
  also have "\<dots> = scan (match_literal (fst p) (snd p)) (scan (match_first ps) s)"
    using snoc.IH[OF sep] snoc.prems(2) by simp
  also have "\<dots> = scan (match_first (ps @ [(fst p, snd p)])) s"
  proof (rule sequential_step)
    show "fst p \<noteq> []"
      using separateD(1)[OF snoc.prems(1), of p p] by simp
  next
    fix q assume "q \<in> set ps"
    then show "fst q \<noteq> []"
      using separateD(1)[OF snoc.prems(1), of q q] by simp
  next
    fix q assume q: "q \<in> set ps"
    with snoc.prems(2) have "q \<noteq> p" by auto
    with q separateD[OF snoc.prems(1), of p q] separateD[OF snoc.prems(1), of q p]
    show "\<not> inside (fst p) (snd q) \<and> \<not> clash (fst p) (snd q) \<and> \<not> inside (fst q) (fst p)"
      by simp
  qed
  finally show ?case by simp
qed

lemma match_first_set:
  assumes "\<And>p q. p \<in> set ps \<Longrightarrow> q \<in> set ps \<Longrightarrow> comparable (fst p) (fst q) \<Longrightarrow> p = q"
  shows "match_first ps s = Some (rep, r) \<longleftrightarrow> (\<exists>old. (old, rep) \<in> set ps \<and> s = old @ r)"
proof
  assume "match_first ps s = Some (rep, r)"
  then show "\<exists>old. (old, rep) \<in> set ps \<and> s = old @ r" by (rule match_first_Some)
next
  assume "\<exists>old. (old, rep) \<in> set ps \<and> s = old @ r"
  then obtain old where old: "(old, rep) \<in> set ps" "s = old @ r" by blast
  then have "match_first ps s \<noteq> None"
    by (auto simp: match_first_None intro!: bexI[of _ "(old, rep)"])
  then obtain rep' r' where m: "match_first ps s = Some (rep', r')" by auto
  from match_first_Some[OF this] obtain old' where old': "(old', rep') \<in> set ps" "s = old' @ r'"
    by blast
  with old have "comparable old old'"
    using same_list_comparable by metis
  with assms[OF old(1) old'(1)] have "old = old'" "rep = rep'" by auto
  with old old' m show "match_first ps s = Some (rep, r)" by simp
qed

lemma separate_incomparable:
  assumes "separate ps" "p \<in> set ps" "q \<in> set ps" "comparable (fst p) (fst q)"
  shows "p = q"
proof (rule ccontr)
  assume "p \<noteq> q"
  from separateD(1)[OF assms(1,3,3)] have "fst q \<in> set (tails (fst q))"
    by (simp add: set_tails)
  with assms(4) have "inside (fst p) (fst q)"
    by (auto simp: inside_def list_ex_iff)
  with separateD(5)[OF assms(1-3) \<open>p \<noteq> q\<close>] show False by simp
qed

lemma match_first_permute:
  assumes "separate ps" "set qs = set ps"
  shows "match_first qs = match_first ps"
proof
  fix s
  have a: "match_first ps s = Some (rep, r) \<longleftrightarrow> (\<exists>old. (old, rep) \<in> set ps \<and> s = old @ r)" for rep r
    by (rule match_first_set) (rule separate_incomparable[OF assms(1)])
  have b: "match_first qs s = Some (rep, r) \<longleftrightarrow> (\<exists>old. (old, rep) \<in> set ps \<and> s = old @ r)" for rep r
    using match_first_set[of qs s rep r] separate_incomparable[OF assms(1)] assms(2) by auto
  show "match_first qs s = match_first ps s"
  proof (cases "match_first ps s")
    case None
    then have "match_first qs s = None"
      using assms(2) by (simp add: match_first_None)
    with None show ?thesis by simp
  next
    case (Some x)
    obtain rep r where x: "x = (rep, r)" by (cases x)
    from Some x a[of rep r] b[of rep r] have "match_first qs s = Some (rep, r)"
      by simp
    with Some x show ?thesis by simp
  qed
qed

lemma separate_set: "separate ps \<Longrightarrow> set qs = set ps \<Longrightarrow> separate qs"
  by (simp add: separate_def list_all_iff)

lemma replace_all_permute:
  assumes "separate ps" "distinct ps" "mset qs = mset ps"
  shows "replace_all qs s = replace_all ps s"
proof -
  from assms(3) have s: "set qs = set ps" by (rule mset_eq_setD)
  from assms(2,3) have d: "distinct qs" by (metis mset_eq_imp_distinct_iff)
  show ?thesis
    using sequential_simultaneous[OF separate_set[OF assms(1) s] d]
      sequential_simultaneous[OF assms(1,2)] match_first_permute[OF assms(1) s] by simp
qed

lemma separate_renames: "separate rename_literals"
  by (simp add: separate_def rename_literals_def renames_def package_ref_def str_def
      clash_def inside_def comparable_def)

lemma distinct_renames: "distinct rename_literals"
  by (simp add: rename_literals_def renames_def package_ref_def str_def)

lemma fold_fix_reference:
  "fold fix_reference qs s =
     replace_all (map (\<lambda>p. (package_ref (fst p), package_ref (snd p))) qs) s"
  by (induction qs arbitrary: s) (simp_all add: replace_all_def fix_reference_scan)

lemma fix_references_replace_all: "fix_references s = replace_all rename_literals s"
  by (simp add: fix_references_def fold_fix_reference rename_literals_def)

lemma fold_fix_reference_permute:
  assumes "mset qs = mset renames"
  shows "fold fix_reference qs s = fix_references s"
proof -
  have "mset (map (\<lambda>p. (package_ref (fst p), package_ref (snd p))) qs) = mset rename_literals"
    using assms by (simp add: rename_literals_def)
  from replace_all_permute[OF separate_renames distinct_renames this]
  show ?thesis by (simp add: fold_fix_reference fix_references_replace_all)
qed

lemma fix_references_simultaneous: "replace_simultaneously rename_literals s = fix_references s"
  by (simp add: replace_simultaneously_def fix_references_replace_all
      sequential_simultaneous[OF separate_renames distinct_renames])

text \<open>
  C9. The five reference renames do not interfere: no search literal overlaps another
  search literal or any replacement text (\<open>separate\<close>), so applying the five replacements
  in any order, or simultaneously in one scan, gives the result of the fixed order of
  the code.
\<close>

theorem renames_independent:
  "separate rename_literals \<and>
   (\<forall>qs. mset qs = mset renames \<longrightarrow> fold fix_reference qs s = fix_references s) \<and>
   replace_simultaneously rename_literals s = fix_references s"
  using separate_renames fold_fix_reference_permute fix_references_simultaneous by blast

lemma example_rename:
  \<open>fix_references (str ''package: "AppAuth" package: "GTMAppAuth"'') =
     str ''package: "appauth-ios" package: "gtmappauth"''\<close>
  by (simp add: eval_simps)

theorem renames_independent_witness:
  \<open>fold fix_reference (rev renames) (str ''package: "AppAuth" package: "GTMAppAuth"'') =
     str ''package: "appauth-ios" package: "gtmappauth"'' \<and>
   replace_simultaneously rename_literals (str ''package: "AppAuth" package: "GTMAppAuth"'') =
     str ''package: "appauth-ios" package: "gtmappauth"''\<close>
proof -
  have "mset (rev renames) = mset renames" by simp
  with renames_independent[of \<open>str ''package: "AppAuth" package: "GTMAppAuth"''\<close>]
  show ?thesis by (simp add: example_rename)
qed


section \<open>The reference renames\<close>











section \<open>The declaration pattern\<close>


lemma not_space_literals [simp]: "\<not> is_space 110" "\<not> is_space 117" "\<not> is_space 46" "\<not> is_space 34"
  by (simp_all add: is_space_def)





















section \<open>The revision pattern\<close>







lemma match_revision_dot: "c \<noteq> 46 \<Longrightarrow> match_revision (c # cs) = None"
  by (simp add: match_revision_def str_def)










end
